theory Spec2Isabelle
  imports Main
begin

section \<open>Strings\<close>

text \<open>
  The source works on Python \<open>str\<close> values. They are modelled as \<open>string\<close>, a list of
  characters with code points below 256. \<open>NL\<close> is the line feed that \<open>readlines\<close> leaves at
  the end of a line and that \<open>join\<close> puts between the lines of a passage.
\<close>

abbreviation NL :: char where
  "NL \<equiv> CHR 0x0A"

text \<open>
  \<open>str.isspace\<close> for one character, on the code points below 256: tab, line feed, vertical
  tab, form feed, carriage return, the four separators \<open>0x1C\<close> to \<open>0x1F\<close>, space, next line
  (\<open>0x85\<close>) and no-break space (\<open>0xA0\<close>).
\<close>

definition isspace :: "char \<Rightarrow> bool" where
  "isspace c = (c \<in> {CHR 0x09, CHR 0x0A, CHR 0x0B, CHR 0x0C, CHR 0x0D,
                      CHR 0x1C, CHR 0x1D, CHR 0x1E, CHR 0x1F, CHR 0x20,
                      CHR 0x85, CHR 0xA0})"

text \<open>\<open>s.startswith(p)\<close>\<close>

definition startswith :: "string \<Rightarrow> string \<Rightarrow> bool" where
  "startswith s p = (take (length p) s = p)"

text \<open>\<open>s.lstrip(cs)\<close>: drop the leading characters that occur in \<open>cs\<close>.\<close>

definition lstrip_chars :: "string \<Rightarrow> string \<Rightarrow> string" where
  "lstrip_chars s cs = dropWhile (\<lambda>c. c \<in> set cs) s"

text \<open>\<open>s.strip()\<close>: drop leading and trailing whitespace.\<close>

definition strip :: "string \<Rightarrow> string" where
  "strip s = rev (dropWhile isspace (rev (dropWhile isspace s)))"

text \<open>\<open>sep.join(xs)\<close>\<close>

fun join :: "string \<Rightarrow> string list \<Rightarrow> string" where
  "join sep [] = []"
| "join sep [x] = x"
| "join sep (x # y # ys) = x @ sep @ join sep (y # ys)"

section \<open>Dictionaries\<close>

text \<open>
  A Python \<open>dict\<close> keeps its keys in insertion order, and \<open>random_phrase\<close> draws from
  \<open>list(d.keys())\<close>, so a dictionary is an association list in insertion order.
  \<open>BOOK_TYPE = dict[str, dict[str, list[str]]]\<close>.
\<close>

type_synonym 'v dict = "(string \<times> 'v) list"
type_synonym chapters = "string list dict"
type_synonym book_type = "chapters dict"

datatype error =
    DuplicateSection string  \<comment> \<open>\<open>print("Error: duplicate section ..."); sys.exit(1)\<close>\<close>
  | DuplicateChapter string  \<comment> \<open>\<open>print("Error: duplicate chapter ..."); sys.exit(1)\<close>\<close>
  | KeyError string          \<comment> \<open>\<open>d[k]\<close> on a missing key\<close>
  | IndexError               \<comment> \<open>\<open>random.choice\<close> on an empty sequence\<close>

text \<open>\<open>list(d.keys())\<close>\<close>

definition keys :: "'v dict \<Rightarrow> string list" where
  "keys d = map fst d"

text \<open>\<open>k in d\<close>\<close>

definition contains :: "'v dict \<Rightarrow> string \<Rightarrow> bool" where
  "contains d k = (k \<in> set (keys d))"

text \<open>\<open>d[k]\<close> as an expression: raises \<open>KeyError\<close> on a missing key.\<close>

definition getitem :: "'v dict \<Rightarrow> string \<Rightarrow> error + 'v" where
  "getitem d k = (case map_of d k of None \<Rightarrow> Inl (KeyError k) | Some v \<Rightarrow> Inr v)"

text \<open>
  \<open>d[k] = v\<close>: an existing key keeps its position and takes the new value, a new key goes
  to the end.
\<close>

fun setitem :: "'v dict \<Rightarrow> string \<Rightarrow> 'v \<Rightarrow> 'v dict" where
  "setitem [] k v = [(k, v)]"
| "setitem ((k', v') # d) k v = (if k' = k then (k, v) # d else (k', v') # setitem d k v)"

section \<open>The parser\<close>

text \<open>
  The running state of the loop in \<open>parse_book\<close>: the book built so far and the three
  variables \<open>section\<close>, \<open>chapter\<close> (\<open>str | None\<close>) and \<open>phrase\<close>.
\<close>

record pstate =
  book :: book_type
  "section" :: "string option"
  "chapter" :: "string option"
  phrase :: "string list"

text \<open>The truth value Python gives a \<open>str | None\<close>: \<open>None\<close> and the empty string are false.\<close>

fun truthy :: "string option \<Rightarrow> bool" where
  "truthy None = False"
| "truthy (Some s) = (s \<noteq> [])"

definition init :: pstate where
  "init = \<lparr>book = [], section = None, chapter = None, phrase = []\<rparr>"

text \<open>
  One iteration of \<open>for line in lines\<close>. The three branches are those of the source, in its
  order. \<open>book[section][chapter].append(p)\<close> changes the inner list in place; here the inner
  and the outer dictionary are written back.
\<close>

definition step :: "pstate \<Rightarrow> string \<Rightarrow> error + pstate" where
  "step st line =
    (if startswith line ''## '' then
       (let sec = strip (lstrip_chars line ''#'') in
        if \<not> contains (book st) sec
        then Inr \<lparr>book = setitem (book st) sec [], section = Some sec,
                  chapter = None, phrase = []\<rparr>
        else Inl (DuplicateSection sec))
     else if truthy (section st) \<and> startswith line ''### '' then
       (let ch = strip (lstrip_chars line ''#''); sec = the (section st) in
        case getitem (book st) sec of
          Inl e \<Rightarrow> Inl e
        | Inr chs \<Rightarrow>
            if \<not> contains chs ch
            then Inr (st\<lparr>book := setitem (book st) sec (setitem chs ch []),
                         chapter := Some ch\<rparr>)
            else Inl (DuplicateChapter ch))
     else if truthy (section st) \<and> truthy (chapter st) then
       (if strip line \<noteq> [] then Inr (st\<lparr>phrase := phrase st @ [strip line]\<rparr>)
        else if phrase st \<noteq> [] then
          (let sec = the (section st); ch = the (chapter st) in
           case getitem (book st) sec of
             Inl e \<Rightarrow> Inl e
           | Inr chs \<Rightarrow>
               (case getitem chs ch of
                  Inl e \<Rightarrow> Inl e
                | Inr ps \<Rightarrow>
                    Inr (st\<lparr>book := setitem (book st) sec
                                        (setitem chs ch (ps @ [join [NL] (phrase st)])),
                            phrase := []\<rparr>)))
        else Inr st)
     else Inr st)"

text \<open>The loop: it stops at the first error, as \<open>sys.exit\<close> does.\<close>

fun run :: "pstate \<Rightarrow> string list \<Rightarrow> error + pstate" where
  "run st [] = Inr st"
| "run st (line # lines) =
     (case step st line of Inl e \<Rightarrow> Inl e | Inr st' \<Rightarrow> run st' lines)"

text \<open>
  \<open>parse_book\<close> after \<open>f.readlines()\<close>: the argument is the list of lines of the file, each
  with its line feed (the last line may have none). The result is the book alone.
\<close>

definition parse_book :: "string list \<Rightarrow> error + book_type" where
  "parse_book lines = (case run init lines of Inl e \<Rightarrow> Inl e | Inr st \<Rightarrow> Inr (book st))"

section \<open>The selector\<close>

text \<open>
  \<open>random.choice(xs)\<close> raises \<open>IndexError\<close> on an empty sequence and otherwise returns
  \<open>xs[i]\<close> for a random \<open>i\<close> below \<open>len(xs)\<close>. The random draw is the parameter \<open>r\<close>,
  taken modulo the length, so that every \<open>r\<close> is a possible draw and every index is
  drawn by some \<open>r\<close>.
\<close>

definition choice :: "nat \<Rightarrow> 'a list \<Rightarrow> error + 'a" where
  "choice r xs = (if xs = [] then Inl IndexError else Inr (xs ! (r mod length xs)))"

definition random_phrase :: "nat \<Rightarrow> nat \<Rightarrow> book_type \<Rightarrow> error + (string \<times> string)" where
  "random_phrase r1 r2 b =
    (case choice r1 (keys b) of
       Inl e \<Rightarrow> Inl e
     | Inr sec \<Rightarrow>
        (case getitem b sec of
           Inl e \<Rightarrow> Inl e
         | Inr chs \<Rightarrow>
            (case choice r2 (keys chs) of
               Inl e \<Rightarrow> Inl e
             | Inr ch \<Rightarrow>
                (case getitem chs ch of
                   Inl e \<Rightarrow> Inl e
                 | Inr ps \<Rightarrow> Inr (sec @ '' - Chapter '' @ ch, join [NL, NL] ps)))))"

section \<open>Documents, books and states used as examples\<close>

text \<open>
  The document of the specification's examples, as \<open>readlines\<close> returns it: two lines of a
  first passage, a blank line, and the line \<open>Line C\<close> at the end of the file, with no blank
  line after it.
\<close>

definition example_doc :: "string list" where
  "example_doc =
     [''## Section One'' @ [NL], ''### 1'' @ [NL], ''Line A'' @ [NL], ''Line B'' @ [NL],
      [NL], ''Line C'' @ [NL]]"

text \<open>The book with the first passage only, and the book with both passages.\<close>

definition book_one_passage :: book_type where
  "book_one_passage = [(''Section One'', [(''1'', [''Line A'' @ [NL] @ ''Line B''])])]"

definition book_two_passages :: book_type where
  "book_two_passages =
     [(''Section One'', [(''1'', [''Line A'' @ [NL] @ ''Line B'', ''Line C''])])]"

text \<open>A book with two sections; the second section has two chapters.\<close>

definition two_section_book :: book_type where
  "two_section_book =
     [(''One'', [(''1'', [''a'', ''b''])]),
      (''Two'', [(''1'', [''c'']), (''2'', [''d'', ''e'', ''f''])])]"

text \<open>A book whose first section has no chapter.\<close>

definition empty_section_book :: book_type where
  "empty_section_book = [(''One'', []), (''Two'', [(''1'', [''c''])])]"

text \<open>The state after \<open>## Section One\<close>, and the state after \<open>### 1\<close> in that section.\<close>

definition in_section_state :: pstate where
  "in_section_state =
     \<lparr>book = [(''Section One'', [])], section = Some ''Section One'', chapter = None,
      phrase = []\<rparr>"

definition in_chapter_state :: pstate where
  "in_chapter_state =
     \<lparr>book = [(''Section One'', [(''1'', [])])], section = Some ''Section One'',
      chapter = Some ''1'', phrase = []\<rparr>"

text \<open>A state with a line waiting in the buffer of chapter \<open>1\<close>.\<close>

definition buffered_state :: pstate where
  "buffered_state =
     \<lparr>book = [(''Section One'', [(''1'', [])])], section = Some ''Section One'',
      chapter = Some ''1'', phrase = [''Line A'']\<rparr>"

text \<open>
  A document with a repeated chapter name and then a repeated section name.
\<close>

definition both_duplicates_doc :: "string list" where
  "both_duplicates_doc = [''## A'' @ [NL], ''### 1'' @ [NL], ''### 1'' @ [NL], ''## A'' @ [NL]]"

section \<open>Properties of a line\<close>

text \<open>
  What the source tests on a line: the two heading markers, and the name
  \<open>line.lstrip("#").strip()\<close> it takes from a heading. A content line is a line that is no
  heading and is not blank.
\<close>

definition is_section_line :: "string \<Rightarrow> bool" where
  "is_section_line line = startswith line ''## ''"

definition is_chapter_line :: "string \<Rightarrow> bool" where
  "is_chapter_line line = startswith line ''### ''"

definition heading_name :: "string \<Rightarrow> string" where
  "heading_name line = strip (lstrip_chars line ''#'')"

definition is_content_line :: "string \<Rightarrow> bool" where
  "is_content_line line =
     (\<not> is_section_line line \<and> \<not> is_chapter_line line \<and> strip line \<noteq> [])"

section \<open>The passages of a book\<close>

text \<open>
  All passages stored in a book:
  \<open>[p for chs in book.values() for ps in chs.values() for p in ps]\<close>.
\<close>

definition chapter_passages :: "chapters \<Rightarrow> string list" where
  "chapter_passages chs = concat (map snd chs)"

definition passages :: "book_type \<Rightarrow> string list" where
  "passages b = concat (map (\<lambda>(sec, chs). chapter_passages chs) b)"

text \<open>
  A passage made of lines from the set \<open>A\<close>: at least one line, joined by line feeds.
\<close>

definition made_of :: "string set \<Rightarrow> string \<Rightarrow> bool" where
  "made_of A p = (\<exists>ls. ls \<noteq> [] \<and> set ls \<subseteq> A \<and> p = join [NL] ls)"

text \<open>The trimmed non-blank lines of a list of lines: what the parser can put in the buffer.\<close>

definition trimmed_lines :: "string list \<Rightarrow> string set" where
  "trimmed_lines ls = {strip l |l. l \<in> set ls \<and> strip l \<noteq> []}"

section \<open>The headings of a document\<close>

text \<open>
  The headings of a document, read off its lines: the names of its level-1 headings in
  order; the lines after its last level-1 heading; the names of the level-2 headings among
  these, which are the chapters of the section that is open at the end of the lines.
\<close>

definition section_names :: "string list \<Rightarrow> string list" where
  "section_names ls = map heading_name (filter is_section_line ls)"

definition last_segment :: "string list \<Rightarrow> string list" where
  "last_segment ls = rev (takeWhile (\<lambda>l. \<not> is_section_line l) (rev ls))"

definition chapter_names :: "string list \<Rightarrow> string list" where
  "chapter_names ls = map heading_name (filter is_chapter_line (last_segment ls))"

text \<open>
  No two level-2 headings of one section have the same name: a level-2 heading that comes
  after a level-1 heading does not repeat the name of a level-2 heading between that
  level-1 heading and itself.
\<close>

definition chapters_distinct :: "string list \<Rightarrow> bool" where
  "chapters_distinct ls =
     list_all (\<lambda>i. is_chapter_line (ls ! i) \<and> section_names (take i ls) \<noteq> [] \<longrightarrow>
                    heading_name (ls ! i) \<notin> set (chapter_names (take i ls)))
       [0..<length ls]"

section \<open>Invariants of the loop\<close>

text \<open>
  The invariant behind the carried-over lines: chapter \<open>c\<close> of section \<open>sec\<close> exists; its
  first passage, once there is one, starts with the lines \<open>ph\<close>; and as long as it has no
  passage while it is the current chapter, the buffer starts with \<open>ph\<close>.
\<close>

definition carried :: "string \<Rightarrow> string \<Rightarrow> string list \<Rightarrow> pstate \<Rightarrow> bool" where
  "carried sec c ph st =
     (\<exists>chs ps. map_of (book st) sec = Some chs \<and> map_of chs c = Some ps \<and>
        (ps = [] \<or> (\<exists>more. hd ps = join [NL] (ph @ more))) \<and>
        (ps = [] \<and> section st = Some sec \<and> chapter st = Some c \<longrightarrow>
           (\<exists>more. phrase st = ph @ more)))"

text \<open>
  The state after the lines \<open>pre\<close>: the sections of the book are the level-1 headings
  of \<open>pre\<close>, the current section is the last of them, its chapters are the level-2
  headings after it (none when its name is empty), and the current chapter is one of them.
\<close>

definition tracks :: "string list \<Rightarrow> pstate \<Rightarrow> bool" where
  "tracks pre st =
     (keys (book st) = section_names pre \<and>
      section st = (if section_names pre = [] then None else Some (last (section_names pre))) \<and>
      (\<forall>sec. section st = Some sec \<longrightarrow>
         (\<exists>chs. map_of (book st) sec = Some chs \<and>
                keys chs = (if sec = [] then [] else chapter_names pre) \<and>
                (\<forall>c. chapter st = Some c \<longrightarrow> c \<in> set (keys chs)))))"

section \<open>Basic facts\<close>

lemma run_append:
  "run st (xs @ ys) = (case run st xs of Inl e \<Rightarrow> Inl e | Inr st' \<Rightarrow> run st' ys)"
  by (induction xs arbitrary: st) (auto split: sum.splits)

lemma step_content_line:
  assumes "is_content_line line"
  shows "step st line =
           Inr (if truthy (section st) \<and> truthy (chapter st)
                then st\<lparr>phrase := phrase st @ [strip line]\<rparr> else st)"
  using assms
  by (simp add: step_def is_content_line_def is_section_line_def is_chapter_line_def)

lemma run_content_lines:
  assumes "\<forall>l\<in>set ls. is_content_line l"
  shows "run st ls =
           Inr (if truthy (section st) \<and> truthy (chapter st)
                then st\<lparr>phrase := phrase st @ map strip ls\<rparr> else st)"
  using assms
proof (induction ls arbitrary: st)
  case Nil
  show ?case by simp
next
  case (Cons l ls)
  from Cons.prems have l: "is_content_line l" and ls: "\<forall>l\<in>set ls. is_content_line l"
    by simp_all
  show ?case
    by (simp add: step_content_line [OF l] Cons.IH [OF ls])
qed

lemma step_no_section:
  assumes "\<not> truthy (section st)" and "\<not> is_section_line line"
  shows "step st line = Inr st"
  using assms by (simp add: step_def is_section_line_def)

lemma run_no_section:
  assumes "\<not> truthy (section st)" and "\<forall>l\<in>set ls. \<not> is_section_line l"
  shows "run st ls = Inr st"
  using assms by (induction ls) (simp_all add: step_no_section)

section \<open>End of input\<close>

text \<open>
  Claim C1. The loop ends without flushing the passage buffer: content lines at the end of
  the input, with no blank line after them, add nothing to the returned book, which is the
  book of the document without them. In particular the example document, which ends with
  \<open>Line C\<close>, yields the book with the first passage only (whether or not the last line
  ends with a line feed).
\<close>

theorem trailing_passage_not_flushed:
  "((\<forall>l\<in>set tail. is_content_line l) \<longrightarrow> parse_book (lines @ tail) = parse_book lines)
   \<and> parse_book example_doc = Inr book_one_passage
   \<and> parse_book (butlast example_doc @ [''Line C'']) = Inr book_one_passage"
proof (intro conjI impI)
  assume tail: "\<forall>l\<in>set tail. is_content_line l"
  show "parse_book (lines @ tail) = parse_book lines"
  proof (cases "run init lines")
    case (Inl e)
    then show ?thesis by (simp add: parse_book_def run_append)
  next
    case (Inr st)
    then show ?thesis
      by (simp add: parse_book_def run_append run_content_lines [OF tail])
  qed
next
  show "parse_book example_doc = Inr book_one_passage"
    by code_simp
next
  show "parse_book (butlast example_doc @ [''Line C'']) = Inr book_one_passage"
    by code_simp
qed

theorem trailing_passage_not_flushed_witness:
  "is_content_line (''Line C'' @ [NL])
   \<and> parse_book (butlast example_doc @ [''Line C'' @ [NL]]) = parse_book (butlast example_doc)
   \<and> parse_book (butlast example_doc) = Inr book_one_passage"
proof -
  have c: "\<forall>l\<in>set [''Line C'' @ [NL]]. is_content_line l"
    by code_simp
  have b: "parse_book (butlast example_doc) = Inr book_one_passage"
    by code_simp
  from trailing_passage_not_flushed [of "[''Line C'' @ [NL]]" "butlast example_doc"] c b
  show ?thesis by simp
qed

text \<open>
  Claim C2. The specification gives the book with two passages for the example document.
  The parser returns the book with the first passage only: \<open>Line C\<close> is still in the buffer
  when the loop ends. With a blank line after \<open>Line C\<close> the second passage is recorded.
\<close>

theorem example_doc_loses_line_c:
  "parse_book example_doc = Inr book_one_passage
   \<and> parse_book example_doc \<noteq> Inr book_two_passages
   \<and> parse_book (example_doc @ [[NL]]) = Inr book_two_passages"
  by code_simp

section \<open>Lines before the first section\<close>

text \<open>
  Claim C10. Lines before the first level-1 heading are ignored, whatever they are (blank
  lines, content lines, level-2 headings): they leave the running state as it was at the
  start, and the returned book is that of the document without them.
\<close>

theorem lines_before_first_section_ignored:
  assumes "\<forall>l\<in>set pre. \<not> is_section_line l"
  shows "run init pre = Inr init \<and> parse_book (pre @ rest) = parse_book rest"
proof -
  have "run init pre = Inr init"
    using assms by (intro run_no_section) (simp_all add: init_def)
  then show ?thesis
    by (simp add: parse_book_def run_append)
qed

theorem lines_before_first_section_ignored_witness:
  "\<not> is_section_line [NL] \<and> \<not> is_section_line (''### 7'' @ [NL])
   \<and> \<not> is_section_line (''stray text'' @ [NL])
   \<and> run init [[NL], ''### 7'' @ [NL], ''stray text'' @ [NL]] = Inr init
   \<and> parse_book ([[NL], ''### 7'' @ [NL], ''stray text'' @ [NL]] @ example_doc)
       = parse_book example_doc"
proof -
  have h: "\<forall>l\<in>set [[NL], ''### 7'' @ [NL], ''stray text'' @ [NL]]. \<not> is_section_line l"
    by code_simp
  from lines_before_first_section_ignored [OF h, of example_doc] h
  show ?thesis by simp
qed

section \<open>Properties of the selector\<close>

lemma map_of_key_nth:
  assumes "i < length d"
  shows "\<exists>v. map_of d (map fst d ! i) = Some v"
proof -
  from assms have "map fst d ! i \<in> fst ` set d"
    by (metis length_map list.set_map nth_mem)
  then have "map_of d (map fst d ! i) \<noteq> None"
    by (simp add: map_of_eq_None_iff)
  then show ?thesis by blast
qed

lemma choice_nonempty:
  assumes "d \<noteq> []"
  shows "choice r (keys d) = Inr (keys d ! (r mod length d))"
  using assms by (simp add: choice_def keys_def)

lemma getitem_chosen:
  assumes "d \<noteq> []"
  shows "\<exists>v. getitem d (keys d ! (r mod length d)) = Inr v"
proof -
  from assms have "r mod length d < length d" by simp
  from map_of_key_nth [OF this] show ?thesis
    by (auto simp: getitem_def keys_def)
qed

text \<open>
  Claim C4. On the book with the one chapter \<open>1\<close> of \<open>Section One\<close> and its two
  passages, every outcome of the two random draws gives the same pair. In general, when the
  selector returns a pair, the section is a key of the book and the chapter a key of that
  section, drawn by the two random numbers; the title is the section, \<open> - Chapter \<close> and
  the chapter; the text is the chapter's passages, in order, joined by two line feeds.
\<close>

theorem random_phrase_title_and_text:
  "random_phrase r1 r2 book_two_passages =
     Inr (''Section One - Chapter 1'', ''Line A'' @ [NL] @ ''Line B'' @ [NL, NL] @ ''Line C'')
   \<and> (random_phrase r1 r2 b = Inr (title, text) \<longrightarrow>
        (\<exists>sec chs ch ps.
           b \<noteq> [] \<and> sec = keys b ! (r1 mod length b) \<and> getitem b sec = Inr chs \<and>
           chs \<noteq> [] \<and> ch = keys chs ! (r2 mod length chs) \<and> getitem chs ch = Inr ps \<and>
           title = sec @ '' - Chapter '' @ ch \<and> text = join [NL, NL] ps))"
proof (intro conjI impI)
  show "random_phrase r1 r2 book_two_passages =
     Inr (''Section One - Chapter 1'', ''Line A'' @ [NL] @ ''Line B'' @ [NL, NL] @ ''Line C'')"
    by (simp add: random_phrase_def choice_def keys_def getitem_def book_two_passages_def)
next
  assume res: "random_phrase r1 r2 b = Inr (title, text)"
  have b: "b \<noteq> []"
  proof
    assume "b = []"
    with res show False by (simp add: random_phrase_def choice_def keys_def)
  qed
  define sec where "sec = keys b ! (r1 mod length b)"
  from getitem_chosen [OF b, of r1] obtain chs where chs: "getitem b sec = Inr chs"
    by (auto simp: sec_def)
  have c1: "choice r1 (keys b) = Inr sec"
    by (simp add: choice_nonempty [OF b] sec_def)
  have chs_ne: "chs \<noteq> []"
  proof
    assume "chs = []"
    with res c1 chs show False by (simp add: random_phrase_def choice_def keys_def)
  qed
  define ch where "ch = keys chs ! (r2 mod length chs)"
  from getitem_chosen [OF chs_ne, of r2] obtain ps where ps: "getitem chs ch = Inr ps"
    by (auto simp: ch_def)
  have c2: "choice r2 (keys chs) = Inr ch"
    by (simp add: choice_nonempty [OF chs_ne] ch_def)
  from res c1 chs c2 ps
  have "title = sec @ '' - Chapter '' @ ch" and "text = join [NL, NL] ps"
    by (simp_all add: random_phrase_def)
  with b chs chs_ne ps sec_def ch_def
  show "\<exists>sec chs ch ps.
           b \<noteq> [] \<and> sec = keys b ! (r1 mod length b) \<and> getitem b sec = Inr chs \<and>
           chs \<noteq> [] \<and> ch = keys chs ! (r2 mod length chs) \<and> getitem chs ch = Inr ps \<and>
           title = sec @ '' - Chapter '' @ ch \<and> text = join [NL, NL] ps"
    by blast
qed

theorem random_phrase_title_and_text_witness:
  "random_phrase 3 5 two_section_book = Inr (''Two - Chapter 2'', ''d'' @ [NL, NL] @ ''e'' @ [NL, NL] @ ''f'')
   \<and> (\<exists>sec chs ch ps.
         two_section_book \<noteq> [] \<and> sec = keys two_section_book ! (3 mod length two_section_book) \<and>
         getitem two_section_book sec = Inr chs \<and>
         chs \<noteq> [] \<and> ch = keys chs ! (5 mod length chs) \<and> getitem chs ch = Inr ps \<and>
         ''Two - Chapter 2'' = sec @ '' - Chapter '' @ ch \<and>
         ''d'' @ [NL, NL] @ ''e'' @ [NL, NL] @ ''f'' = join [NL, NL] ps)"
proof -
  have h: "random_phrase 3 5 two_section_book =
             Inr (''Two - Chapter 2'', ''d'' @ [NL, NL] @ ''e'' @ [NL, NL] @ ''f'')"
    by code_simp
  from random_phrase_title_and_text
         [of 3 5 two_section_book "''Two - Chapter 2''"
             "''d'' @ [NL, NL] @ ''e'' @ [NL, NL] @ ''f''"] h
  show ?thesis by blast
qed

text \<open>
  Claim C6. The selector fails on a book with no section, where the first
  \<open>random.choice\<close> raises, and on a book whose chosen section has no chapter, where the
  second one raises; in both cases the exception is the \<open>IndexError\<close> of \<open>random.choice\<close>.
  On a book with a section, when the chosen section has a chapter, it returns a pair.
\<close>

theorem random_phrase_preconditions:
  "random_phrase r1 r2 [] = Inl IndexError
   \<and> (b \<noteq> [] \<and> getitem b (keys b ! (r1 mod length b)) = Inr [] \<longrightarrow>
        random_phrase r1 r2 b = Inl IndexError)
   \<and> (b \<noteq> [] \<and> getitem b (keys b ! (r1 mod length b)) = Inr chs \<and> chs \<noteq> [] \<longrightarrow>
        (\<exists>title text. random_phrase r1 r2 b = Inr (title, text)))"
proof (intro conjI impI)
  show "random_phrase r1 r2 [] = Inl IndexError"
    by (simp add: random_phrase_def choice_def keys_def)
next
  assume "b \<noteq> [] \<and> getitem b (keys b ! (r1 mod length b)) = Inr []"
  then show "random_phrase r1 r2 b = Inl IndexError"
    by (simp add: random_phrase_def choice_nonempty) (simp add: choice_def keys_def)
next
  assume h: "b \<noteq> [] \<and> getitem b (keys b ! (r1 mod length b)) = Inr chs \<and> chs \<noteq> []"
  then have chs: "chs \<noteq> []" by simp
  from getitem_chosen [OF chs, of r2] obtain ps
    where "getitem chs (keys chs ! (r2 mod length chs)) = Inr ps" by blast
  with h show "\<exists>title text. random_phrase r1 r2 b = Inr (title, text)"
    by (simp add: random_phrase_def choice_nonempty)
qed

theorem random_phrase_preconditions_witness:
  "random_phrase 0 0 [] = Inl IndexError
   \<and> empty_section_book \<noteq> []
   \<and> getitem empty_section_book (keys empty_section_book ! (4 mod length empty_section_book)) = Inr []
   \<and> random_phrase 4 0 empty_section_book = Inl IndexError
   \<and> getitem empty_section_book (keys empty_section_book ! (7 mod length empty_section_book))
       = Inr [(''1'', [''c''])]
   \<and> (\<exists>title text. random_phrase 7 0 empty_section_book = Inr (title, text))"
proof -
  have ne: "empty_section_book \<noteq> []"
    by (simp add: empty_section_book_def)
  have g0: "getitem empty_section_book
              (keys empty_section_book ! (4 mod length empty_section_book)) = Inr []"
    by code_simp
  have g1: "getitem empty_section_book
              (keys empty_section_book ! (7 mod length empty_section_book))
              = Inr [(''1'', [''c''])]"
    by code_simp
  from random_phrase_preconditions [of 0 0 empty_section_book "[]"]
       random_phrase_preconditions [of 4 0 empty_section_book "[]"]
       random_phrase_preconditions [of 7 0 empty_section_book "[(''1'', [''c''])]"]
       ne g0 g1
  show ?thesis by simp
qed

section \<open>Facts about dictionaries and strings\<close>

lemma map_of_setitem: "map_of (setitem d k v) = (map_of d)(k \<mapsto> v)"
  by (induction d) (auto simp: fun_eq_iff)

lemma keys_setitem_old:
  "k \<in> set (keys d) \<Longrightarrow> keys (setitem d k v) = keys d"
  by (induction d) (force simp: keys_def)+

lemma keys_setitem_new:
  "k \<notin> set (keys d) \<Longrightarrow> keys (setitem d k v) = keys d @ [k]"
  by (induction d) (auto simp: keys_def)

lemma getitem_Inr: "getitem d k = Inr v \<longleftrightarrow> map_of d k = Some v"
  by (simp add: getitem_def split: option.splits)

lemma getitem_Inl: "getitem d k = Inl e \<longleftrightarrow> map_of d k = None \<and> e = KeyError k"
  by (auto simp: getitem_def split: option.splits)

lemma getitem_in_keys: "getitem d k = Inr v \<Longrightarrow> k \<in> set (keys d)"
  by (auto simp: getitem_Inr keys_def dest: map_of_SomeD intro: rev_image_eqI)

lemma in_keys_getitem: "k \<in> set (keys d) \<Longrightarrow> \<exists>v. getitem d k = Inr v"
  by (cases "map_of d k") (auto simp: getitem_def keys_def map_of_eq_None_iff)

lemma strip_space_Cons: "isspace c \<Longrightarrow> strip (c # s) = strip s"
  by (simp add: strip_def)

lemma section_line_name:
  assumes "is_section_line line"
  shows "strip (lstrip_chars line ''#'') = strip (drop 3 line)"
proof -
  from assms have "take 3 line = ''## ''"
    by (simp add: is_section_line_def startswith_def eval_nat_numeral)
  then have "line = ''## '' @ drop 3 line"
    by (metis append_take_drop_id)
  then obtain r where r: "line = CHR ''#'' # CHR ''#'' # CHR '' '' # r" and d: "drop 3 line = r"
    by (metis append_Cons append_Nil)
  have "lstrip_chars line ''#'' = CHR '' '' # r"
    by (simp add: r lstrip_chars_def)
  then show ?thesis
    by (simp add: d strip_space_Cons isspace_def)
qed

lemma chapter_line_name:
  assumes "is_chapter_line line"
  shows "strip (lstrip_chars line ''#'') = strip (drop 4 line)"
proof -
  from assms have "take 4 line = ''### ''"
    by (simp add: is_chapter_line_def startswith_def eval_nat_numeral)
  then have "line = ''### '' @ drop 4 line"
    by (metis append_take_drop_id)
  then obtain r where r: "line = CHR ''#'' # CHR ''#'' # CHR ''#'' # CHR '' '' # r"
    and d: "drop 4 line = r"
    by (metis append_Cons append_Nil)
  have "lstrip_chars line ''#'' = CHR '' '' # r"
    by (simp add: r lstrip_chars_def)
  then show ?thesis
    by (simp add: d strip_space_Cons isspace_def)
qed

lemma chapter_line_not_section_line:
  assumes "is_chapter_line line"
  shows "\<not> is_section_line line"
proof
  assume s: "is_section_line line"
  from assms have "take 4 line = ''### ''"
    by (simp add: is_chapter_line_def startswith_def eval_nat_numeral)
  then have "take 3 (take 4 line) = ''###''" by simp
  then have "take 3 line = ''###''" by simp
  moreover from s have "take 3 line = ''## ''"
    by (simp add: is_section_line_def startswith_def eval_nat_numeral)
  ultimately show False by simp
qed

section \<open>One step of the loop, by the form of the line\<close>

lemma step_section_line:
  assumes "is_section_line line"
  shows "step st line =
           (if contains (book st) (heading_name line)
            then Inl (DuplicateSection (heading_name line))
            else Inr \<lparr>book = setitem (book st) (heading_name line) [],
                      section = Some (heading_name line), chapter = None, phrase = []\<rparr>)"
  using assms by (simp add: step_def is_section_line_def heading_name_def Let_def)

lemma step_chapter_line:
  assumes "is_chapter_line line" and "section st = Some sec" and "sec \<noteq> []"
    and "getitem (book st) sec = Inr chs"
  shows "step st line =
           (if contains chs (heading_name line)
            then Inl (DuplicateChapter (heading_name line))
            else Inr (st\<lparr>book := setitem (book st) sec (setitem chs (heading_name line) []),
                         chapter := Some (heading_name line)\<rparr>))"
proof -
  from assms(1) have "\<not> startswith line ''## ''" and "startswith line ''### ''"
    using chapter_line_not_section_line
    by (simp_all add: is_section_line_def is_chapter_line_def)
  with assms(2-4) show ?thesis
    by (simp add: step_def heading_name_def Let_def)
qed

lemma step_plain_line:
  assumes "\<not> is_section_line line" and "\<not> is_chapter_line line"
  shows "step st line =
     (if truthy (section st) \<and> truthy (chapter st) then
        (if strip line \<noteq> [] then Inr (st\<lparr>phrase := phrase st @ [strip line]\<rparr>)
         else if phrase st \<noteq> [] then
           (case getitem (book st) (the (section st)) of
              Inl e \<Rightarrow> Inl e
            | Inr chs \<Rightarrow>
               (case getitem chs (the (chapter st)) of
                  Inl e \<Rightarrow> Inl e
                | Inr ps \<Rightarrow>
                    Inr (st\<lparr>book := setitem (book st) (the (section st))
                              (setitem chs (the (chapter st)) (ps @ [join [NL] (phrase st)])),
                            phrase := []\<rparr>)))
         else Inr st)
      else Inr st)"
  using assms by (simp add: step_def is_section_line_def is_chapter_line_def Let_def)

lemma step_not_section_line:
  assumes "\<not> is_section_line line" and "step st line = Inr st'"
  shows "section st' = section st \<and> keys (book st') = keys (book st)"
  using assms
  by (auto simp: step_def is_section_line_def Let_def keys_setitem_old getitem_in_keys
           split: if_splits sum.splits)

lemma step_not_section_line_error:
  assumes "\<not> is_section_line line"
  shows "step st line \<noteq> Inl (DuplicateSection n)"
  using assms
  by (auto simp: step_def is_section_line_def Let_def getitem_Inl
           split: if_splits sum.splits)

lemma step_plain_line_chapters:
  assumes "\<not> is_section_line line" and "\<not> is_chapter_line line" and "step st line = Inr st'"
  shows "chapter st' = chapter st
         \<and> map_option keys (map_of (book st') s) = map_option keys (map_of (book st) s)"
  using assms
  by (auto simp: step_plain_line map_of_setitem keys_setitem_old getitem_in_keys getitem_Inr
           split: if_splits sum.splits)

lemma step_plain_line_error:
  assumes "\<not> is_section_line line" and "\<not> is_chapter_line line"
  shows "step st line \<noteq> Inl (DuplicateChapter n)"
  using assms
  by (auto simp: step_plain_line getitem_Inl split: if_splits sum.splits)

section \<open>Recognising headings\<close>

text \<open>
  Claim C9, as the code has it. In every state a line is handled as a section heading
  exactly when it starts with \<open>## \<close>: such a line opens the section named by the rest of
  the line, trimmed (or stops the parser when that name is in the book), and no other line
  changes the current section, adds a section or reports a duplicate section. A line that
  starts with \<open>### \<close> is handled as a chapter heading while a section with a non-empty
  name is current: it opens the chapter named by the rest of the line, trimmed (or stops the
  parser when that name is in the section). While no section is current such a line is
  ignored. A line that starts with neither marker never changes the current chapter, adds
  a chapter or reports a duplicate chapter.
\<close>

theorem heading_lines_recognised:
  "(is_section_line line \<longrightarrow>
      heading_name line = strip (drop 3 line) \<and>
      step st line =
        (if contains (book st) (heading_name line)
         then Inl (DuplicateSection (heading_name line))
         else Inr \<lparr>book = setitem (book st) (heading_name line) [],
                   section = Some (heading_name line), chapter = None, phrase = []\<rparr>))
   \<and> (\<not> is_section_line line \<longrightarrow>
        step st line \<noteq> Inl (DuplicateSection n) \<and>
        (step st line = Inr st' \<longrightarrow>
           section st' = section st \<and> keys (book st') = keys (book st)))
   \<and> (is_chapter_line line \<and> section st = Some sec \<and> sec \<noteq> [] \<and>
        getitem (book st) sec = Inr chs \<longrightarrow>
        heading_name line = strip (drop 4 line) \<and>
        step st line =
          (if contains chs (heading_name line)
           then Inl (DuplicateChapter (heading_name line))
           else Inr (st\<lparr>book := setitem (book st) sec (setitem chs (heading_name line) []),
                        chapter := Some (heading_name line)\<rparr>)))
   \<and> (is_chapter_line line \<and> section st = None \<longrightarrow> step st line = Inr st)
   \<and> (\<not> is_section_line line \<and> \<not> is_chapter_line line \<longrightarrow>
        step st line \<noteq> Inl (DuplicateChapter n) \<and>
        (step st line = Inr st' \<longrightarrow>
           chapter st' = chapter st \<and>
           map_option keys (map_of (book st') s) = map_option keys (map_of (book st) s)))"
proof (intro conjI impI)
  assume "is_section_line line"
  then show "heading_name line = strip (drop 3 line)"
    by (simp add: heading_name_def section_line_name)
next
  assume "is_section_line line"
  then show "step st line =
        (if contains (book st) (heading_name line)
         then Inl (DuplicateSection (heading_name line))
         else Inr \<lparr>book = setitem (book st) (heading_name line) [],
                   section = Some (heading_name line), chapter = None, phrase = []\<rparr>)"
    by (rule step_section_line)
next
  assume "\<not> is_section_line line"
  then show "step st line \<noteq> Inl (DuplicateSection n)"
    by (rule step_not_section_line_error)
next
  assume "\<not> is_section_line line" and "step st line = Inr st'"
  then show "section st' = section st" and "keys (book st') = keys (book st)"
    using step_not_section_line by blast+
next
  assume "is_chapter_line line \<and> section st = Some sec \<and> sec \<noteq> [] \<and>
          getitem (book st) sec = Inr chs"
  then show "heading_name line = strip (drop 4 line)"
    by (simp add: heading_name_def chapter_line_name)
next
  assume "is_chapter_line line \<and> section st = Some sec \<and> sec \<noteq> [] \<and>
          getitem (book st) sec = Inr chs"
  then show "step st line =
          (if contains chs (heading_name line)
           then Inl (DuplicateChapter (heading_name line))
           else Inr (st\<lparr>book := setitem (book st) sec (setitem chs (heading_name line) []),
                        chapter := Some (heading_name line)\<rparr>))"
    using step_chapter_line by blast
next
  assume "is_chapter_line line \<and> section st = None"
  then show "step st line = Inr st"
    using chapter_line_not_section_line by (intro step_no_section) simp_all
next
  assume "\<not> is_section_line line \<and> \<not> is_chapter_line line"
  then show "step st line \<noteq> Inl (DuplicateChapter n)"
    using step_plain_line_error by blast
next
  assume "\<not> is_section_line line \<and> \<not> is_chapter_line line" and "step st line = Inr st'"
  then show "chapter st' = chapter st"
    and "map_option keys (map_of (book st') s) = map_option keys (map_of (book st) s)"
    using step_plain_line_chapters by blast+
qed

theorem heading_lines_recognised_witness:
  "is_section_line (''##  Two '' @ [NL])
   \<and> heading_name (''##  Two '' @ [NL]) = ''Two''
   \<and> step in_chapter_state (''##  Two '' @ [NL]) =
       Inr \<lparr>book = [(''Section One'', [(''1'', [])]), (''Two'', [])], section = Some ''Two'',
             chapter = None, phrase = []\<rparr>
   \<and> \<not> is_section_line (''### 1'' @ [NL])
   \<and> step in_section_state (''### 1'' @ [NL]) \<noteq> Inl (DuplicateSection ''1'')
   \<and> step in_section_state (''### 1'' @ [NL]) = Inr in_chapter_state
   \<and> section in_chapter_state = section in_section_state
   \<and> keys (book in_chapter_state) = keys (book in_section_state)
   \<and> is_chapter_line (''### 1'' @ [NL])
   \<and> heading_name (''### 1'' @ [NL]) = ''1''
   \<and> step init (''### 1'' @ [NL]) = Inr init
   \<and> \<not> is_chapter_line (''Line A'' @ [NL])
   \<and> \<not> is_section_line (''Line A'' @ [NL])
   \<and> step in_chapter_state (''Line A'' @ [NL]) \<noteq> Inl (DuplicateChapter ''1'')
   \<and> step in_chapter_state (''Line A'' @ [NL]) = Inr (in_chapter_state\<lparr>phrase := [''Line A'']\<rparr>)
   \<and> chapter (in_chapter_state\<lparr>phrase := [''Line A'']\<rparr>) = chapter in_chapter_state
   \<and> map_option keys (map_of (book (in_chapter_state\<lparr>phrase := [''Line A'']\<rparr>)) ''Section One'')
       = map_option keys (map_of (book in_chapter_state) ''Section One'')"
proof -
  have a1: "is_section_line (''##  Two '' @ [NL])" by code_simp
  have a2: "strip (drop 3 (''##  Two '' @ [NL])) = ''Two''" by code_simp
  have a3: "\<not> contains (book in_chapter_state) ''Two''" by code_simp
  have a4: "setitem (book in_chapter_state) ''Two'' []
              = [(''Section One'', [(''1'', [])]), (''Two'', [])]" by code_simp
  have b1: "is_chapter_line (''### 1'' @ [NL])" by code_simp
  have b2: "\<not> is_section_line (''### 1'' @ [NL])" by code_simp
  have b3: "section in_section_state = Some ''Section One''" by code_simp
  have b4: "getitem (book in_section_state) ''Section One'' = Inr []" by code_simp
  have b5: "strip (drop 4 (''### 1'' @ [NL])) = ''1''" by code_simp
  have b6: "in_section_state\<lparr>book := setitem (book in_section_state) ''Section One''
                                       (setitem [] ''1'' []),
                              chapter := Some ''1''\<rparr> = in_chapter_state" by code_simp
  have c1: "section init = None" by code_simp
  have d1: "\<not> is_chapter_line (''Line A'' @ [NL])" by code_simp
  have d2: "\<not> is_section_line (''Line A'' @ [NL])" by code_simp
  have d3: "step in_chapter_state (''Line A'' @ [NL])
              = Inr (in_chapter_state\<lparr>phrase := [''Line A'']\<rparr>)" by code_simp
  note t1 = heading_lines_recognised [of "''##  Two '' @ [NL]" in_chapter_state]
  note t2 = heading_lines_recognised
              [of "''### 1'' @ [NL]" in_section_state "''1''" in_chapter_state
                  "''Section One''" "[]"]
  note t3 = heading_lines_recognised [of "''### 1'' @ [NL]" init]
  note t4 = heading_lines_recognised
              [of "''Line A'' @ [NL]" in_chapter_state "''1''"
                  "in_chapter_state\<lparr>phrase := [''Line A'']\<rparr>" _ _ "''Section One''"]
  from t1 a1 a2 a3 a4
  have r1: "heading_name (''##  Two '' @ [NL]) = ''Two''
            \<and> step in_chapter_state (''##  Two '' @ [NL]) =
               Inr \<lparr>book = [(''Section One'', [(''1'', [])]), (''Two'', [])],
                     section = Some ''Two'', chapter = None, phrase = []\<rparr>"
    by simp
  from t2 b1 b2 b3 b4 b5 b6
  have r2: "step in_section_state (''### 1'' @ [NL]) \<noteq> Inl (DuplicateSection ''1'')
            \<and> step in_section_state (''### 1'' @ [NL]) = Inr in_chapter_state
            \<and> heading_name (''### 1'' @ [NL]) = ''1''"
    by (simp add: contains_def keys_def)
  from t2 b2 r2
  have r2': "section in_chapter_state = section in_section_state
             \<and> keys (book in_chapter_state) = keys (book in_section_state)"
    by blast
  from t3 b1 c1 have r3: "step init (''### 1'' @ [NL]) = Inr init"
    by blast
  from t4 d1 d2 d3
  have r4: "step in_chapter_state (''Line A'' @ [NL]) \<noteq> Inl (DuplicateChapter ''1'')
            \<and> chapter (in_chapter_state\<lparr>phrase := [''Line A'']\<rparr>) = chapter in_chapter_state
            \<and> map_option keys (map_of (book (in_chapter_state\<lparr>phrase := [''Line A'']\<rparr>))
                 ''Section One'')
                = map_option keys (map_of (book in_chapter_state) ''Section One'')"
    by blast
  from a1 b1 b2 d1 d2 d3 r1 r2 r2' r3 r4 show ?thesis
    by blast
qed

text \<open>
  Claim C9 as stated fails for a line that starts with \<open>### \<close> while no section is
  current: the line is not handled as a chapter heading, the state stays as it is and no
  chapter name is recorded.
\<close>

theorem chapter_heading_needs_section_counterexample:
  "startswith (''### 1'' @ [NL]) ''### ''
   \<and> step init (''### 1'' @ [NL]) = Inr init
   \<and> chapter init = None \<and> book init = []"
  by code_simp

section \<open>Facts about the passages of a book\<close>

lemma set_setitem_subset: "set (setitem d k v) \<subseteq> set d \<union> {(k, v)}"
  by (induction d) (auto split: if_splits)

lemma set_setitem_new: "k \<notin> set (keys d) \<Longrightarrow> setitem d k v = d @ [(k, v)]"
  by (induction d) (auto simp: keys_def)

lemma chapter_passages_setitem:
  "set (chapter_passages (setitem chs ch ps)) \<subseteq> set (chapter_passages chs) \<union> set ps"
  using set_setitem_subset [of chs ch ps]
  by (fastforce simp: chapter_passages_def)

lemma passages_setitem:
  "set (passages (setitem b sec chs)) \<subseteq> set (passages b) \<union> set (chapter_passages chs)"
  using set_setitem_subset [of b sec chs]
  by (fastforce simp: passages_def)

lemma passages_lookup:
  assumes "map_of b sec = Some chs"
  shows "set (chapter_passages chs) \<subseteq> set (passages b)"
proof -
  from assms have "(sec, chs) \<in> set b" by (rule map_of_SomeD)
  then show ?thesis by (force simp: passages_def)
qed

lemma chapter_passages_lookup:
  assumes "map_of chs ch = Some ps"
  shows "set ps \<subseteq> set (chapter_passages chs)"
proof -
  from assms have "(ch, ps) \<in> set chs" by (rule map_of_SomeD)
  then show ?thesis by (force simp: chapter_passages_def)
qed

lemma passages_new_section:
  assumes "sec \<notin> set (keys b)"
  shows "passages (setitem b sec []) = passages b"
  by (simp add: set_setitem_new [OF assms] passages_def chapter_passages_def)

text \<open>
  The effect of one step on the stored passages and on the buffer: the only passage a step
  can add is the join of a non-empty buffer, and the only line it can add to the buffer is
  the trimmed, non-blank current line.
\<close>

lemma step_passages:
  assumes "step st line = Inr st'"
  shows "set (passages (book st')) \<subseteq>
           set (passages (book st)) \<union> (if phrase st = [] then {} else {join [NL] (phrase st)})"
proof (cases "is_section_line line")
  case True
  with assms show ?thesis
    using passages_new_section [of "heading_name line" "book st"]
    by (auto simp: step_section_line contains_def split: if_splits)
next
  case ns: False
  show ?thesis
  proof (cases "truthy (section st) \<and> is_chapter_line line")
    case True
    then obtain sec where sec: "section st = Some sec" "sec \<noteq> []"
      by (cases "section st") auto
    from True assms ns sec obtain chs where chs: "getitem (book st) sec = Inr chs"
      by (cases "getitem (book st) sec")
         (auto simp: step_def is_section_line_def is_chapter_line_def Let_def)
    from True sec chs assms
    have b: "book st' = setitem (book st) sec (setitem chs (heading_name line) [])"
      by (auto simp: step_chapter_line split: if_splits)
    have "set (chapter_passages (setitem chs (heading_name line) []))
            \<subseteq> set (chapter_passages chs)"
      using chapter_passages_setitem [of chs "heading_name line" "[]"] by simp
    moreover have "set (chapter_passages chs) \<subseteq> set (passages (book st))"
      using chs by (intro passages_lookup) (simp add: getitem_Inr)
    ultimately show ?thesis
      using passages_setitem [of "book st" sec "setitem chs (heading_name line) []"] b
      by auto
  next
    case False
    then have nc: "step st line = Inr st' \<Longrightarrow> \<not> is_chapter_line line \<or> \<not> truthy (section st)"
      by blast
    show ?thesis
    proof (cases "is_chapter_line line")
      case True
      with False have "\<not> truthy (section st)" by simp
      with ns assms have "st' = st" by (simp add: step_no_section)
      then show ?thesis by auto
    next
      case pl: False
      show ?thesis
      proof (cases "truthy (section st) \<and> truthy (chapter st) \<and> strip line = []
                    \<and> phrase st \<noteq> []")
        case True
        with assms ns pl obtain chs ps where
          chs: "getitem (book st) (the (section st)) = Inr chs" and
          ps: "getitem chs (the (chapter st)) = Inr ps" and
          b: "book st' = setitem (book st) (the (section st))
                (setitem chs (the (chapter st)) (ps @ [join [NL] (phrase st)]))"
          by (auto simp: step_plain_line split: sum.splits)
        have "set (chapter_passages
                (setitem chs (the (chapter st)) (ps @ [join [NL] (phrase st)])))
              \<subseteq> set (chapter_passages chs) \<union> set ps \<union> {join [NL] (phrase st)}"
          using chapter_passages_setitem
                  [of chs "the (chapter st)" "ps @ [join [NL] (phrase st)]"]
          by auto
        moreover have "set ps \<subseteq> set (chapter_passages chs)"
          using ps by (intro chapter_passages_lookup) (simp add: getitem_Inr)
        moreover have "set (chapter_passages chs) \<subseteq> set (passages (book st))"
          using chs by (intro passages_lookup) (simp add: getitem_Inr)
        ultimately show ?thesis
          using passages_setitem [of "book st" "the (section st)"
                  "setitem chs (the (chapter st)) (ps @ [join [NL] (phrase st)])"] b True
          by auto
      next
        case False
        with assms ns pl have "book st' = book st"
          by (auto simp: step_plain_line split: if_splits)
        then show ?thesis by auto
      qed
    qed
  qed
qed

lemma step_phrase:
  assumes "step st line = Inr st'"
  shows "phrase st' = [] \<or> phrase st' = phrase st
         \<or> (phrase st' = phrase st @ [strip line] \<and> strip line \<noteq> [])"
  using assms
  by (auto simp: step_def Let_def split: if_splits sum.splits)

section \<open>What a recorded passage is made of\<close>

lemma made_of_mono: "A \<subseteq> A' \<Longrightarrow> made_of A p \<Longrightarrow> made_of A' p"
  by (auto simp: made_of_def)

lemma step_made_of:
  assumes "step st line = Inr st'"
    and "set (phrase st) \<subseteq> A"
    and "strip line \<noteq> [] \<longrightarrow> strip line \<in> A"
    and "set (passages (book st)) \<subseteq> B \<union> Collect (made_of A)"
  shows "set (phrase st') \<subseteq> A \<and> set (passages (book st')) \<subseteq> B \<union> Collect (made_of A)"
proof
  from step_phrase [OF assms(1)] assms(2,3) show "set (phrase st') \<subseteq> A"
    by auto
next
  have "phrase st \<noteq> [] \<Longrightarrow> made_of A (join [NL] (phrase st))"
    using assms(2) by (auto simp: made_of_def)
  with step_passages [OF assms(1)] assms(4)
  show "set (passages (book st')) \<subseteq> B \<union> Collect (made_of A)"
    by (auto split: if_splits)
qed

lemma run_made_of:
  assumes "run st ls = Inr st'"
    and "set (phrase st) \<subseteq> A"
    and "trimmed_lines ls \<subseteq> A"
    and "set (passages (book st)) \<subseteq> B \<union> Collect (made_of A)"
  shows "set (phrase st') \<subseteq> A \<and> set (passages (book st')) \<subseteq> B \<union> Collect (made_of A)"
  using assms
proof (induction ls arbitrary: st)
  case Nil
  then show ?case by simp
next
  case (Cons l ls)
  from Cons.prems(1) obtain st1 where s1: "step st l = Inr st1" and r1: "run st1 ls = Inr st'"
    by (auto split: sum.splits)
  from Cons.prems(3) have l: "strip l \<noteq> [] \<longrightarrow> strip l \<in> A" and ls: "trimmed_lines ls \<subseteq> A"
    by (auto simp: trimmed_lines_def)
  from step_made_of [OF s1 Cons.prems(2) l Cons.prems(4)]
  have "set (phrase st1) \<subseteq> A" and "set (passages (book st1)) \<subseteq> B \<union> Collect (made_of A)"
    by simp_all
  with Cons.IH [OF r1 _ ls] show ?case by blast
qed

lemma strip_eq_Nil: "strip s = [] \<longleftrightarrow> (\<forall>c\<in>set s. isspace c)"
proof
  assume e: "strip s = []"
  then have "\<forall>c\<in>set (dropWhile isspace s). isspace c"
    by (simp add: strip_def dropWhile_eq_Nil_conv)
  moreover have "dropWhile isspace s \<noteq> [] \<Longrightarrow> \<not> isspace (hd (dropWhile isspace s))"
    by (rule hd_dropWhile)
  ultimately have "dropWhile isspace s = []"
    by (metis hd_in_set)
  then show "\<forall>c\<in>set s. isspace c"
    by (simp add: dropWhile_eq_Nil_conv)
next
  assume "\<forall>c\<in>set s. isspace c"
  then show "strip s = []"
    by (auto simp: strip_def dest: set_dropWhileD)
qed

lemma strip_has_nonspace:
  assumes "strip s \<noteq> []"
  shows "\<exists>c\<in>set (strip s). \<not> isspace c"
proof -
  let ?t = "dropWhile isspace (rev (dropWhile isspace s))"
  from assms have ne: "?t \<noteq> []" by (simp add: strip_def)
  then have "\<not> isspace (hd ?t)" by (rule hd_dropWhile)
  moreover from ne have "hd ?t \<in> set (strip s)" by (simp add: strip_def)
  ultimately show ?thesis by blast
qed

lemma strip_strip_nonblank: "strip s \<noteq> [] \<Longrightarrow> strip (strip s) \<noteq> []"
  using strip_has_nonspace [of s] by (auto simp: strip_eq_Nil [of "strip s"])

lemma join_contains_first: "ls \<noteq> [] \<Longrightarrow> set (hd ls) \<subseteq> set (join sep ls)"
  by (induction sep ls rule: join.induct) auto

lemma made_of_trimmed_nonblank:
  assumes "made_of (trimmed_lines lines) p"
  shows "strip p \<noteq> []"
proof -
  from assms obtain ls where ls: "ls \<noteq> []" "set ls \<subseteq> trimmed_lines lines" "p = join [NL] ls"
    by (auto simp: made_of_def)
  then have "hd ls \<in> trimmed_lines lines" by auto
  then obtain l where "hd ls = strip l" "strip l \<noteq> []"
    by (auto simp: trimmed_lines_def)
  with strip_has_nonspace [of l] obtain c where "c \<in> set (hd ls)" "\<not> isspace c"
    by auto
  with join_contains_first [OF ls(1), of "[NL]"] ls(3) have "c \<in> set p" by auto
  with \<open>\<not> isspace c\<close> show ?thesis by (auto simp: strip_eq_Nil)
qed

section \<open>Recorded passages are not blank\<close>

text \<open>
  Claim C5. Every passage stored in the book that the parser returns is non-empty after
  trimming. It is the join, by line feeds, of at least one line of the buffer, and each of
  these lines is a trimmed line of the input that is not blank.
\<close>

theorem passages_nonblank:
  "parse_book lines = Inr b \<and> p \<in> set (passages b) \<longrightarrow>
     strip p \<noteq> [] \<and>
     (\<exists>ls. ls \<noteq> [] \<and> p = join [NL] ls \<and>
           (\<forall>l\<in>set ls. strip l \<noteq> [] \<and> (\<exists>line\<in>set lines. l = strip line)))"
proof
  assume h: "parse_book lines = Inr b \<and> p \<in> set (passages b)"
  then obtain st where st: "run init lines = Inr st" and b: "b = book st"
    by (auto simp: parse_book_def split: sum.splits)
  have "set (phrase init) \<subseteq> trimmed_lines lines"
    and "set (passages (book init)) \<subseteq> {} \<union> Collect (made_of (trimmed_lines lines))"
    by (simp_all add: init_def passages_def)
  from run_made_of [OF st this(1) subset_refl this(2)] h b
  have m: "made_of (trimmed_lines lines) p" by auto
  then obtain ls where ls: "ls \<noteq> []" "set ls \<subseteq> trimmed_lines lines" "p = join [NL] ls"
    by (auto simp: made_of_def)
  have "\<forall>l\<in>set ls. strip l \<noteq> [] \<and> (\<exists>line\<in>set lines. l = strip line)"
  proof
    fix l assume "l \<in> set ls"
    with ls(2) obtain line where "line \<in> set lines" "l = strip line" "strip line \<noteq> []"
      by (auto simp: trimmed_lines_def)
    then show "strip l \<noteq> [] \<and> (\<exists>line\<in>set lines. l = strip line)"
      using strip_strip_nonblank by auto
  qed
  with ls made_of_trimmed_nonblank [OF m]
  show "strip p \<noteq> [] \<and>
     (\<exists>ls. ls \<noteq> [] \<and> p = join [NL] ls \<and>
           (\<forall>l\<in>set ls. strip l \<noteq> [] \<and> (\<exists>line\<in>set lines. l = strip line)))"
    by blast
qed

theorem passages_nonblank_witness:
  "parse_book (example_doc @ [[NL]]) = Inr book_two_passages
   \<and> ''Line A'' @ [NL] @ ''Line B'' \<in> set (passages book_two_passages)
   \<and> strip (''Line A'' @ [NL] @ ''Line B'') \<noteq> []
   \<and> (\<exists>ls. ls \<noteq> [] \<and> ''Line A'' @ [NL] @ ''Line B'' = join [NL] ls \<and>
           (\<forall>l\<in>set ls. strip l \<noteq> [] \<and> (\<exists>line\<in>set (example_doc @ [[NL]]). l = strip line)))"
proof -
  have a: "parse_book (example_doc @ [[NL]]) = Inr book_two_passages"
    by code_simp
  have b: "''Line A'' @ [NL] @ ''Line B'' \<in> set (passages book_two_passages)"
    by code_simp
  from passages_nonblank
         [of "example_doc @ [[NL]]" book_two_passages "''Line A'' @ [NL] @ ''Line B''"] a b
  show ?thesis by blast
qed

section \<open>A section heading resets the chapter and the buffer\<close>

lemma step_section_line_any_state:
  assumes "is_section_line line"
  shows "step (st\<lparr>section := sec', chapter := ch', phrase := ph'\<rparr>) line = step st line"
  using assms by (simp add: step_section_line)

text \<open>
  Claim C8. A level-1 heading whose name is not in the book adds the section with no
  chapter, makes it the current section, sets the current chapter to none and empties the
  buffer. What the parser does from this heading on does not depend on the section, the
  chapter and the buffer it had before, and every passage in the book afterwards either was
  in the book before the heading or is made of trimmed lines that come after the heading.
\<close>

theorem section_heading_resets:
  "is_section_line line \<and> \<not> contains (book st) (heading_name line) \<longrightarrow>
     step st line =
       Inr \<lparr>book = setitem (book st) (heading_name line) [],
            section = Some (heading_name line), chapter = None, phrase = []\<rparr>
     \<and> run (st\<lparr>section := sec', chapter := ch', phrase := ph'\<rparr>) (line # rest)
         = run st (line # rest)
     \<and> (run st (line # rest) = Inr st' \<and> p \<in> set (passages (book st')) \<longrightarrow>
          p \<in> set (passages (book st)) \<or> made_of (trimmed_lines rest) p)"
proof (intro impI conjI)
  assume h: "is_section_line line \<and> \<not> contains (book st) (heading_name line)"
  then show s: "step st line =
       Inr \<lparr>book = setitem (book st) (heading_name line) [],
            section = Some (heading_name line), chapter = None, phrase = []\<rparr>"
    by (simp add: step_section_line)
  from h show "run (st\<lparr>section := sec', chapter := ch', phrase := ph'\<rparr>) (line # rest)
         = run st (line # rest)"
    by (simp add: step_section_line_any_state)
  assume r: "run st (line # rest) = Inr st' \<and> p \<in> set (passages (book st'))"
  let ?st1 = "\<lparr>book = setitem (book st) (heading_name line) [],
            section = Some (heading_name line), chapter = None, phrase = []\<rparr>"
  from r s have r1: "run ?st1 rest = Inr st'" by simp
  from h have "passages (book ?st1) = passages (book st)"
    by (simp add: passages_new_section contains_def)
  then have "set (phrase ?st1) \<subseteq> trimmed_lines rest"
    and "set (passages (book ?st1))
           \<subseteq> set (passages (book st)) \<union> Collect (made_of (trimmed_lines rest))"
    by auto
  from run_made_of [OF r1 this(1) subset_refl this(2)] r
  show "p \<in> set (passages (book st)) \<or> made_of (trimmed_lines rest) p"
    by auto
qed

theorem section_heading_resets_witness:
  "is_section_line (''## Two'' @ [NL])
   \<and> heading_name (''## Two'' @ [NL]) = ''Two''
   \<and> step buffered_state (''## Two'' @ [NL]) =
       Inr \<lparr>book = [(''Section One'', [(''1'', [])]), (''Two'', [])],
            section = Some ''Two'', chapter = None, phrase = []\<rparr>
   \<and> run (buffered_state\<lparr>section := None, chapter := None, phrase := []\<rparr>)
         [''## Two'' @ [NL], ''### 1'' @ [NL], ''Line C'' @ [NL], [NL]]
       = run buffered_state [''## Two'' @ [NL], ''### 1'' @ [NL], ''Line C'' @ [NL], [NL]]
   \<and> run buffered_state [''## Two'' @ [NL], ''### 1'' @ [NL], ''Line C'' @ [NL], [NL]] =
       Inr \<lparr>book = [(''Section One'', [(''1'', [])]), (''Two'', [(''1'', [''Line C''])])],
            section = Some ''Two'', chapter = Some ''1'', phrase = []\<rparr>
   \<and> ''Line C'' \<notin> set (passages (book buffered_state))
   \<and> made_of (trimmed_lines [''### 1'' @ [NL], ''Line C'' @ [NL], [NL]]) ''Line C''"
proof -
  let ?st' = "\<lparr>book = [(''Section One'', [(''1'', [])]), (''Two'', [(''1'', [''Line C''])])],
            section = Some ''Two'', chapter = Some ''1'', phrase = []\<rparr>"
  have a: "is_section_line (''## Two'' @ [NL])" by code_simp
  have b: "heading_name (''## Two'' @ [NL]) = ''Two''" by code_simp
  have c: "\<not> contains (book buffered_state) ''Two''" by code_simp
  have d: "setitem (book buffered_state) ''Two'' []
             = [(''Section One'', [(''1'', [])]), (''Two'', [])]" by code_simp
  have e: "run buffered_state [''## Two'' @ [NL], ''### 1'' @ [NL], ''Line C'' @ [NL], [NL]]
             = Inr ?st'" by code_simp
  have f: "''Line C'' \<in> set (passages (book ?st'))" by code_simp
  have g: "''Line C'' \<notin> set (passages (book buffered_state))" by code_simp
  from section_heading_resets
         [where line = "''## Two'' @ [NL]" and st = buffered_state and sec' = None
            and ch' = None and ph' = "[]"
            and rest = "[''### 1'' @ [NL], ''Line C'' @ [NL], [NL]]"
            and st' = ?st' and p = "''Line C''"]
       a b c d e f g
  show ?thesis by simp
qed

section \<open>A chapter heading keeps the buffer\<close>

lemma map_of_in_keys: "map_of d k = Some v \<Longrightarrow> k \<in> set (keys d)"
  by (auto simp: keys_def dest: map_of_SomeD intro: rev_image_eqI)

lemma step_carried:
  assumes "carried sec c ph st" and "step st line = Inr st'"
  shows "carried sec c ph st'"
proof -
  from assms(1) obtain chs ps where
    chs: "map_of (book st) sec = Some chs" and ps: "map_of chs c = Some ps" and
    hd: "ps = [] \<or> (\<exists>more. hd ps = join [NL] (ph @ more))" and
    buf: "ps = [] \<and> section st = Some sec \<and> chapter st = Some c \<longrightarrow>
           (\<exists>more. phrase st = ph @ more)"
    by (auto simp: carried_def)
  have sec_in: "sec \<in> set (keys (book st))" using chs by (rule map_of_in_keys)
  have c_in: "c \<in> set (keys chs)" using ps by (rule map_of_in_keys)
  show ?thesis
  proof (cases "is_section_line line")
    case True
    with assms(2) have n: "\<not> contains (book st) (heading_name line)"
      and st': "st' = \<lparr>book = setitem (book st) (heading_name line) [],
                       section = Some (heading_name line), chapter = None, phrase = []\<rparr>"
      by (auto simp: step_section_line split: if_splits)
    from n sec_in have "heading_name line \<noteq> sec" by (auto simp: contains_def)
    with chs ps hd show ?thesis
      by (auto simp: carried_def st' map_of_setitem)
  next
    case ns: False
    show ?thesis
    proof (cases "is_chapter_line line")
      case True
      show ?thesis
      proof (cases "truthy (section st)")
        case False
        with ns assms(2) have "st' = st" by (simp add: step_no_section)
        with assms(1) show ?thesis by simp
      next
        case tr: True
        then obtain t where t: "section st = Some t" "t \<noteq> []"
          by (cases "section st") auto
        from assms(2) ns True t obtain chs_t where ct: "getitem (book st) t = Inr chs_t"
          by (cases "getitem (book st) t")
             (auto simp: step_def is_section_line_def is_chapter_line_def Let_def)
        from assms(2) True t ct
        have n: "\<not> contains chs_t (heading_name line)"
          and st': "st' = st\<lparr>book := setitem (book st) t (setitem chs_t (heading_name line) []),
                           chapter := Some (heading_name line)\<rparr>"
          by (auto simp: step_chapter_line split: if_splits)
        show ?thesis
        proof (cases "t = sec")
          case True
          with ct chs have "chs_t = chs" by (simp add: getitem_Inr)
          with n c_in have "heading_name line \<noteq> c" by (auto simp: contains_def)
          with chs ps hd True \<open>chs_t = chs\<close> show ?thesis
            by (auto simp: carried_def st' map_of_setitem)
        next
          case False
          with chs ps hd t show ?thesis
            by (auto simp: carried_def st' map_of_setitem)
        qed
      qed
    next
      case pl: False
      note sp = step_plain_line [OF ns pl, of st]
      show ?thesis
      proof (cases "truthy (section st) \<and> truthy (chapter st)")
        case False
        with assms(2) sp have "st' = st" by (auto split: if_splits)
        with assms(1) show ?thesis by simp
      next
        case tt: True
        then obtain t d where t: "section st = Some t" and d: "chapter st = Some d"
          by (cases "section st"; cases "chapter st") auto
        show ?thesis
        proof (cases "strip line \<noteq> []")
          case True
          with assms(2) sp tt have st': "st' = st\<lparr>phrase := phrase st @ [strip line]\<rparr>"
            by simp
          from chs ps hd buf show ?thesis
            by (auto simp: carried_def st')
        next
          case blank: False
          show ?thesis
          proof (cases "phrase st = []")
            case True
            with assms(2) sp tt blank have "st' = st" by simp
            with assms(1) show ?thesis by simp
          next
            case ne: False
            from assms(2) sp tt blank ne t d obtain chs_t ps_d where
              ct: "map_of (book st) t = Some chs_t" and pd: "map_of chs_t d = Some ps_d" and
              st': "st' = st\<lparr>book := setitem (book st) t
                               (setitem chs_t d (ps_d @ [join [NL] (phrase st)])),
                             phrase := []\<rparr>"
              by (auto simp: getitem_Inr split: sum.splits)
            show ?thesis
            proof (cases "t = sec \<and> d = c")
              case True
              with ct chs pd ps have e: "chs_t = chs" "ps_d = ps" by simp_all
              from True t d buf have "ps = [] \<longrightarrow> (\<exists>more. phrase st = ph @ more)"
                by simp
              with hd have "\<exists>more. hd (ps @ [join [NL] (phrase st)]) = join [NL] (ph @ more)"
                by (cases ps) auto
              with chs True e show ?thesis
                by (auto simp: carried_def st' map_of_setitem)
            next
              case False
              with chs ps hd t d ct show ?thesis
                by (auto simp: carried_def st' map_of_setitem)
            qed
          qed
        qed
      qed
    qed
  qed
qed

lemma run_carried:
  assumes "carried sec c ph st" and "run st ls = Inr st'"
  shows "carried sec c ph st'"
  using assms
proof (induction ls arbitrary: st)
  case Nil
  then show ?case by simp
next
  case (Cons l ls)
  from Cons.prems(2) obtain st1 where "step st l = Inr st1" and "run st1 ls = Inr st'"
    by (auto split: sum.splits)
  with Cons.IH step_carried [OF Cons.prems(1)] show ?case by blast
qed

lemma passages_replace:
  assumes "map_of b sec = Some chs" and "chapter_passages chs' = chapter_passages chs"
  shows "passages (setitem b sec chs') = passages b"
  using assms
  by (induction b) (auto simp: passages_def split: if_splits)

text \<open>
  Claim C7. A level-2 heading that opens a new chapter while the buffer is not empty leaves
  the buffer as it is: the lines are neither stored in the book nor dropped. Whatever
  follows, when the new chapter has a first passage, this passage starts with the lines
  carried over. In particular, when content lines and then a blank line follow the heading
  of a chapter with a non-empty name, the new chapter receives as its only passage the
  carried lines followed by the new ones.
\<close>

theorem chapter_heading_keeps_buffer:
  "is_chapter_line line \<and> section st = Some sec \<and> sec \<noteq> [] \<and>
   getitem (book st) sec = Inr chs \<and> \<not> contains chs (heading_name line) \<and>
   phrase st \<noteq> [] \<longrightarrow>
     (\<exists>st1. step st line = Inr st1 \<and> phrase st1 = phrase st \<and>
            chapter st1 = Some (heading_name line) \<and>
            passages (book st1) = passages (book st))
     \<and> (run st (line # rest) = Inr st' \<and> getitem (book st') sec = Inr chs' \<and>
          getitem chs' (heading_name line) = Inr (p # ps) \<longrightarrow>
          (\<exists>more. p = join [NL] (phrase st @ more)))
     \<and> (heading_name line \<noteq> [] \<and> list_all is_content_line cs \<and>
          \<not> is_section_line blank \<and> \<not> is_chapter_line blank \<and> strip blank = [] \<longrightarrow>
          (\<exists>st2 chs2. run st (line # cs @ [blank]) = Inr st2 \<and> phrase st2 = [] \<and>
             getitem (book st2) sec = Inr chs2 \<and>
             getitem chs2 (heading_name line) = Inr [join [NL] (phrase st @ map strip cs)]))"
proof (intro impI conjI)
  assume h: "is_chapter_line line \<and> section st = Some sec \<and> sec \<noteq> [] \<and>
   getitem (book st) sec = Inr chs \<and> \<not> contains chs (heading_name line) \<and>
   phrase st \<noteq> []"
  let ?m = "heading_name line"
  let ?st1 = "st\<lparr>book := setitem (book st) sec (setitem chs ?m []), chapter := Some ?m\<rparr>"
  from h have s1: "step st line = Inr ?st1"
    by (simp add: step_chapter_line)
  from h have new: "?m \<notin> set (keys chs)" by (simp add: contains_def)
  from h have look: "map_of (book st) sec = Some chs" by (simp add: getitem_Inr)
  have "chapter_passages (setitem chs ?m []) = chapter_passages chs"
    by (simp add: set_setitem_new [OF new] chapter_passages_def)
  with look have pass: "passages (book ?st1) = passages (book st)"
    by (simp add: passages_replace)
  from s1 pass
  show "\<exists>st1. step st line = Inr st1 \<and> phrase st1 = phrase st \<and>
            chapter st1 = Some (heading_name line) \<and>
            passages (book st1) = passages (book st)"
    by simp
  have g1: "getitem (book ?st1) sec = Inr (setitem chs ?m [])"
    by (simp add: getitem_Inr map_of_setitem)
  have g2: "getitem (setitem chs ?m []) ?m = Inr []"
    by (simp add: getitem_Inr map_of_setitem)
  have car: "carried sec ?m (phrase st) ?st1"
    using g1 g2 by (auto simp: carried_def getitem_Inr)
  {
    assume r: "run st (line # rest) = Inr st' \<and> getitem (book st') sec = Inr chs' \<and>
          getitem chs' (heading_name line) = Inr (p # ps)"
    with s1 have "run ?st1 rest = Inr st'" by simp
    from run_carried [OF car this] r
    show "\<exists>more. p = join [NL] (phrase st @ more)"
      by (auto simp: carried_def getitem_Inr)
  }
  {
    assume c: "heading_name line \<noteq> [] \<and> list_all is_content_line cs \<and>
          \<not> is_section_line blank \<and> \<not> is_chapter_line blank \<and> strip blank = []"
    then have cs: "\<forall>l\<in>set cs. is_content_line l" by (simp add: list_all_iff)
    let ?st2 = "?st1\<lparr>phrase := phrase st @ map strip cs\<rparr>"
    let ?p = "join [NL] (phrase st @ map strip cs)"
    let ?chs2 = "setitem (setitem chs ?m []) ?m ([] @ [?p])"
    let ?st3 = "?st2\<lparr>book := setitem (book ?st2) sec ?chs2, phrase := []\<rparr>"
    from h c have tr: "truthy (section ?st1) \<and> truthy (chapter ?st1)" by simp
    have r2: "run ?st1 cs = Inr ?st2"
      using run_content_lines [OF cs, of ?st1] tr by simp
    from c h g1 g2 have s3: "step ?st2 blank = Inr ?st3"
      by (simp add: step_plain_line)
    from s1 r2 s3 have "run st (line # cs @ [blank]) = Inr ?st3"
      by (simp add: run_append)
    moreover have "getitem (book ?st3) sec = Inr ?chs2"
      by (simp add: getitem_Inr map_of_setitem)
    moreover have "getitem ?chs2 ?m = Inr [?p]"
      by (simp add: getitem_Inr map_of_setitem)
    ultimately
    show "\<exists>st2 chs2. run st (line # cs @ [blank]) = Inr st2 \<and> phrase st2 = [] \<and>
             getitem (book st2) sec = Inr chs2 \<and>
             getitem chs2 (heading_name line) = Inr [join [NL] (phrase st @ map strip cs)]"
      by (intro exI [of _ ?st3] exI [of _ ?chs2]) simp
  }
qed

theorem chapter_heading_keeps_buffer_witness:
  "is_chapter_line (''### 2'' @ [NL]) \<and> heading_name (''### 2'' @ [NL]) = ''2''
   \<and> section buffered_state = Some ''Section One''
   \<and> getitem (book buffered_state) ''Section One'' = Inr [(''1'', [])]
   \<and> \<not> contains [(''1'', [])] ''2''
   \<and> phrase buffered_state = [''Line A'']
   \<and> (\<exists>st1. step buffered_state (''### 2'' @ [NL]) = Inr st1 \<and> phrase st1 = phrase buffered_state \<and>
            chapter st1 = Some ''2'' \<and>
            passages (book st1) = passages (book buffered_state))
   \<and> run buffered_state [''### 2'' @ [NL], ''Line B'' @ [NL], [NL], ''Line C'' @ [NL], [NL]] =
       Inr \<lparr>book = [(''Section One'',
                      [(''1'', []), (''2'', [''Line A'' @ [NL] @ ''Line B'', ''Line C''])])],
            section = Some ''Section One'', chapter = Some ''2'', phrase = []\<rparr>
   \<and> (\<exists>more. ''Line A'' @ [NL] @ ''Line B'' = join [NL] (phrase buffered_state @ more))
   \<and> list_all is_content_line [''Line B'' @ [NL]]
   \<and> \<not> is_section_line [NL] \<and> \<not> is_chapter_line [NL] \<and> strip [NL] = []
   \<and> (\<exists>st2 chs2. run buffered_state ((''### 2'' @ [NL]) # [''Line B'' @ [NL]] @ [[NL]]) = Inr st2 \<and>
          phrase st2 = [] \<and> getitem (book st2) ''Section One'' = Inr chs2 \<and>
          getitem chs2 ''2'' = Inr [join [NL] (phrase buffered_state @ map strip [''Line B'' @ [NL]])])"
proof -
  let ?st' = "\<lparr>book = [(''Section One'',
                      [(''1'', []), (''2'', [''Line A'' @ [NL] @ ''Line B'', ''Line C''])])],
            section = Some ''Section One'', chapter = Some ''2'', phrase = []\<rparr>"
  have a: "is_chapter_line (''### 2'' @ [NL])" by code_simp
  have b: "heading_name (''### 2'' @ [NL]) = ''2''" by code_simp
  have c: "section buffered_state = Some ''Section One''" by code_simp
  have d: "getitem (book buffered_state) ''Section One'' = Inr [(''1'', [])]" by code_simp
  have e: "\<not> contains [(''1'', [])] ''2''" by code_simp
  have f: "phrase buffered_state = [''Line A'']" by code_simp
  have g: "run buffered_state
             [''### 2'' @ [NL], ''Line B'' @ [NL], [NL], ''Line C'' @ [NL], [NL]] = Inr ?st'"
    by code_simp
  have h: "getitem (book ?st') ''Section One''
             = Inr [(''1'', []), (''2'', [''Line A'' @ [NL] @ ''Line B'', ''Line C''])]"
    by code_simp
  have i: "getitem [(''1'', []), (''2'', [''Line A'' @ [NL] @ ''Line B'', ''Line C''])] ''2''
             = Inr [''Line A'' @ [NL] @ ''Line B'', ''Line C'']"
    by code_simp
  have j: "list_all is_content_line [''Line B'' @ [NL]]" by code_simp
  have k: "\<not> is_section_line [NL] \<and> \<not> is_chapter_line [NL] \<and> strip [NL] = []" by code_simp
  note t = chapter_heading_keeps_buffer
         [where line = "''### 2'' @ [NL]" and st = buffered_state and sec = "''Section One''"
            and chs = "[(''1'', [])]"
            and rest = "[''Line B'' @ [NL], [NL], ''Line C'' @ [NL], [NL]]"
            and st' = ?st'
            and chs' = "[(''1'', []), (''2'', [''Line A'' @ [NL] @ ''Line B'', ''Line C''])]"
            and p = "''Line A'' @ [NL] @ ''Line B''" and ps = "[''Line C'']"
            and cs = "[''Line B'' @ [NL]]" and blank = "[NL]"]
  have pre: "is_chapter_line (''### 2'' @ [NL]) \<and> section buffered_state = Some ''Section One'' \<and>
     ''Section One'' \<noteq> [] \<and> getitem (book buffered_state) ''Section One'' = Inr [(''1'', [])] \<and>
     \<not> contains [(''1'', [])] (heading_name (''### 2'' @ [NL])) \<and> phrase buffered_state \<noteq> []"
    using a b c d e f by simp
  from t pre have
    r1: "\<exists>st1. step buffered_state (''### 2'' @ [NL]) = Inr st1 \<and>
           phrase st1 = phrase buffered_state \<and>
           chapter st1 = Some (heading_name (''### 2'' @ [NL])) \<and>
           passages (book st1) = passages (book buffered_state)"
    by blast
  have i': "getitem [(''1'', []), (''2'', [''Line A'' @ [NL] @ ''Line B'', ''Line C''])]
              (heading_name (''### 2'' @ [NL]))
             = Inr [''Line A'' @ [NL] @ ''Line B'', ''Line C'']"
    using i by (simp only: b)
  from t pre g h i' have
    r2: "\<exists>more. ''Line A'' @ [NL] @ ''Line B'' = join [NL] (phrase buffered_state @ more)"
    by blast
  have b': "heading_name (''### 2'' @ [NL]) \<noteq> []"
    unfolding b by simp
  from t pre j k b' have
    r3: "\<exists>st2 chs2. run buffered_state ((''### 2'' @ [NL]) # [''Line B'' @ [NL]] @ [[NL]]) = Inr st2 \<and>
          phrase st2 = [] \<and> getitem (book st2) ''Section One'' = Inr chs2 \<and>
          getitem chs2 (heading_name (''### 2'' @ [NL]))
            = Inr [join [NL] (phrase buffered_state @ map strip [''Line B'' @ [NL]])]"
    by blast
  from a b c d e f g r1 [unfolded b] r2 r3 [unfolded b] j k show ?thesis
    by blast
qed

section \<open>Duplicate headings\<close>

lemma section_names_snoc:
  "section_names (pre @ [l]) =
     section_names pre @ (if is_section_line l then [heading_name l] else [])"
  by (simp add: section_names_def)

lemma chapter_names_snoc:
  "chapter_names (pre @ [l]) =
     (if is_section_line l then []
      else chapter_names pre @ (if is_chapter_line l then [heading_name l] else []))"
  by (simp add: chapter_names_def last_segment_def)

lemma chapters_distinct_snoc:
  "chapters_distinct (pre @ [l]) \<longleftrightarrow>
     chapters_distinct pre \<and>
     (is_chapter_line l \<and> section_names pre \<noteq> [] \<longrightarrow>
        heading_name l \<notin> set (chapter_names pre))"
  by (auto simp: chapters_distinct_def list_all_iff nth_append)

lemma tracks_init: "tracks [] init"
  by (simp add: tracks_def init_def section_names_def keys_def)

lemma step_tracks:
  assumes "tracks pre st" and "step st l = Inr st'"
  shows "tracks (pre @ [l]) st'"
proof (cases "is_section_line l")
  case True
  with assms(2) have n: "heading_name l \<notin> set (keys (book st))"
    and st': "st' = \<lparr>book = setitem (book st) (heading_name l) [],
                     section = Some (heading_name l), chapter = None, phrase = []\<rparr>"
    by (auto simp: step_section_line contains_def split: if_splits)
  have k: "keys ([] :: chapters) = []" by (simp add: keys_def)
  from assms(1) n True show ?thesis
    by (simp add: tracks_def st' section_names_snoc chapter_names_snoc keys_setitem_new
                  map_of_setitem k)
next
  case ns: False
  show ?thesis
  proof (cases "truthy (section st)")
    case False
    with ns assms(2) have st': "st' = st" by (simp add: step_no_section)
    from False have "section st = None \<or> section st = Some []"
      by (cases "section st") auto
    with assms(1) ns show ?thesis
      by (auto simp: tracks_def st' section_names_snoc chapter_names_snoc)
  next
    case tr: True
    then obtain sec where sec: "section st = Some sec" "sec \<noteq> []"
      by (cases "section st") auto
    with assms(1) obtain chs where
      chs: "map_of (book st) sec = Some chs" "keys chs = chapter_names pre"
           "\<forall>c. chapter st = Some c \<longrightarrow> c \<in> set (keys chs)"
      by (auto simp: tracks_def)
    have sec_in: "sec \<in> set (keys (book st))" using chs(1) by (rule map_of_in_keys)
    have g: "getitem (book st) sec = Inr chs" using chs(1) by (simp add: getitem_Inr)
    show ?thesis
    proof (cases "is_chapter_line l")
      case True
      with assms(2) sec g have n: "heading_name l \<notin> set (keys chs)"
        and st': "st' = st\<lparr>book := setitem (book st) sec (setitem chs (heading_name l) []),
                         chapter := Some (heading_name l)\<rparr>"
        by (auto simp: step_chapter_line contains_def split: if_splits)
      from assms(1) sec chs n True ns sec_in show ?thesis
        by (auto simp: tracks_def st' section_names_snoc chapter_names_snoc keys_setitem_new
                       keys_setitem_old map_of_setitem)
    next
      case pl: False
      note sp = step_plain_line [OF ns pl, of st]
      show ?thesis
      proof (cases "truthy (chapter st) \<and> strip l = [] \<and> phrase st \<noteq> []")
        case False
        with assms(2) sp have "book st' = book st" "section st' = section st"
          "chapter st' = chapter st"
          by (auto split: if_splits)
        with assms(1) ns pl sec chs show ?thesis
          by (auto simp: tracks_def section_names_snoc chapter_names_snoc split: if_splits)
      next
        case True
        then obtain c where c: "chapter st = Some c" by (cases "chapter st") auto
        with chs(3) have c_in: "c \<in> set (keys chs)" by simp
        then obtain ps where ps: "getitem chs c = Inr ps"
          using in_keys_getitem by blast
        from assms(2) sp True tr sec c g ps
        have st': "st' = st\<lparr>book := setitem (book st) sec
                               (setitem chs c (ps @ [join [NL] (phrase st)])),
                            phrase := []\<rparr>"
          by simp
        from assms(1) sec chs c c_in ns pl sec_in show ?thesis
          by (auto simp: tracks_def st' section_names_snoc chapter_names_snoc
                         keys_setitem_old map_of_setitem)
      qed
    qed
  qed
qed

lemma run_snoc:
  "run st (ls @ [l]) = (case run st ls of Inl e \<Rightarrow> Inl e | Inr st1 \<Rightarrow> step st1 l)"
  by (simp add: run_append split: sum.splits)

lemma run_tracks:
  assumes "run init pre = Inr st"
  shows "tracks pre st"
  using assms
proof (induction pre arbitrary: st rule: rev_induct)
  case Nil
  then show ?case using tracks_init by simp
next
  case (snoc l pre)
  from snoc.prems obtain st1 where "run init pre = Inr st1" and "step st1 l = Inr st"
    by (auto simp: run_snoc split: sum.splits)
  with snoc.IH step_tracks show ?case by blast
qed

lemma step_succeeds:
  assumes "tracks pre st"
    and "is_section_line l \<longrightarrow> heading_name l \<notin> set (section_names pre)"
    and "is_chapter_line l \<and> section_names pre \<noteq> [] \<longrightarrow>
           heading_name l \<notin> set (chapter_names pre)"
  shows "\<exists>st'. step st l = Inr st'"
proof (cases "is_section_line l")
  case True
  with assms(1,2) show ?thesis
    by (simp add: step_section_line contains_def tracks_def)
next
  case ns: False
  show ?thesis
  proof (cases "truthy (section st)")
    case False
    with ns show ?thesis by (simp add: step_no_section)
  next
    case True
    then obtain sec where sec: "section st = Some sec" "sec \<noteq> []"
      by (cases "section st") auto
    with assms(1) obtain chs where
      chs: "map_of (book st) sec = Some chs" "keys chs = chapter_names pre"
           "\<forall>c. chapter st = Some c \<longrightarrow> c \<in> set (keys chs)"
      by (auto simp: tracks_def)
    from assms(1) sec have names: "section_names pre \<noteq> []"
      by (auto simp: tracks_def split: if_splits)
    have g: "getitem (book st) sec = Inr chs" using chs(1) by (simp add: getitem_Inr)
    show ?thesis
    proof (cases "is_chapter_line l")
      case True
      with assms(3) names chs(2) have "\<not> contains chs (heading_name l)"
        by (simp add: contains_def)
      with True sec g show ?thesis by (simp add: step_chapter_line)
    next
      case pl: False
      show ?thesis
      proof (cases "chapter st")
        case None
        with ns pl show ?thesis by (simp add: step_plain_line)
      next
        case (Some c)
        with chs(3) obtain ps where "getitem chs c = Inr ps"
          using in_keys_getitem by blast
        with ns pl sec Some g show ?thesis
          by (simp add: step_plain_line)
      qed
    qed
  qed
qed

lemma run_succeeds:
  assumes "distinct (section_names ls)" and "chapters_distinct ls"
  shows "\<exists>st. run init ls = Inr st"
  using assms
proof (induction ls rule: rev_induct)
  case Nil
  show ?case by simp
next
  case (snoc l ls)
  from snoc.prems have d: "distinct (section_names ls)"
    and n: "is_section_line l \<longrightarrow> heading_name l \<notin> set (section_names ls)"
    by (auto simp: section_names_snoc split: if_splits)
  from snoc.prems(2) have c: "chapters_distinct ls"
    and m: "is_chapter_line l \<and> section_names ls \<noteq> [] \<longrightarrow>
              heading_name l \<notin> set (chapter_names ls)"
    by (simp_all add: chapters_distinct_snoc)
  from snoc.IH [OF d c] obtain st where st: "run init ls = Inr st" by blast
  from step_succeeds [OF run_tracks [OF st] n m] st show ?case
    by (simp add: run_snoc)
qed

text \<open>
  Claim C3, as the code has it. The parser stops at the first duplicate heading it meets.
  When the lines before a level-1 heading are parsed without error and have a level-1
  heading of the same name, the parser fails with the duplicate-section error for that
  name. When the lines before a level-2 heading are parsed without error, the section that
  is open has a non-empty name and already has a level-2 heading of the same name, the
  parser fails with the duplicate-chapter error for that name. A document in which no two
  level-1 headings have the same name and no two level-2 headings of one section have the
  same name is parsed successfully.
\<close>

theorem duplicate_headings:
  "(run init pre = Inr st \<and> is_section_line line \<and>
      heading_name line \<in> set (section_names pre) \<longrightarrow>
      parse_book (pre @ line # post) = Inl (DuplicateSection (heading_name line)))
   \<and> (run init pre = Inr st \<and> is_chapter_line line \<and> section_names pre \<noteq> [] \<and>
        last (section_names pre) \<noteq> [] \<and> heading_name line \<in> set (chapter_names pre) \<longrightarrow>
        parse_book (pre @ line # post) = Inl (DuplicateChapter (heading_name line)))
   \<and> (distinct (section_names lines) \<and> chapters_distinct lines \<longrightarrow>
        (\<exists>b. parse_book lines = Inr b))"
proof (intro conjI impI)
  assume h: "run init pre = Inr st \<and> is_section_line line \<and>
      heading_name line \<in> set (section_names pre)"
  then have "tracks pre st" by (simp add: run_tracks)
  with h have "contains (book st) (heading_name line)"
    by (simp add: tracks_def contains_def)
  with h have "step st line = Inl (DuplicateSection (heading_name line))"
    by (simp add: step_section_line)
  with h show "parse_book (pre @ line # post) = Inl (DuplicateSection (heading_name line))"
    by (simp add: parse_book_def run_append)
next
  assume h: "run init pre = Inr st \<and> is_chapter_line line \<and> section_names pre \<noteq> [] \<and>
        last (section_names pre) \<noteq> [] \<and> heading_name line \<in> set (chapter_names pre)"
  then have t: "tracks pre st" by (simp add: run_tracks)
  with h have sec: "section st = Some (last (section_names pre))"
    by (simp add: tracks_def)
  with t h obtain chs where chs: "map_of (book st) (last (section_names pre)) = Some chs"
    "keys chs = chapter_names pre"
    by (auto simp: tracks_def)
  with h have "contains chs (heading_name line)"
    by (simp add: contains_def)
  with h sec chs(1) have "step st line = Inl (DuplicateChapter (heading_name line))"
    by (simp add: step_chapter_line getitem_Inr)
  with h show "parse_book (pre @ line # post) = Inl (DuplicateChapter (heading_name line))"
    by (simp add: parse_book_def run_append)
next
  assume "distinct (section_names lines) \<and> chapters_distinct lines"
  then obtain st where "run init lines = Inr st"
    using run_succeeds by blast
  then show "\<exists>b. parse_book lines = Inr b"
    by (simp add: parse_book_def)
qed

theorem duplicate_headings_witness:
  "run init [''## A'' @ [NL], ''Line'' @ [NL]] =
     Inr \<lparr>book = [(''A'', [])], section = Some ''A'', chapter = None, phrase = []\<rparr>
   \<and> is_section_line (''## A '' @ [NL])
   \<and> heading_name (''## A '' @ [NL]) \<in> set (section_names [''## A'' @ [NL], ''Line'' @ [NL]])
   \<and> parse_book ([''## A'' @ [NL], ''Line'' @ [NL]] @ (''## A '' @ [NL]) # [''### 1'' @ [NL]])
       = Inl (DuplicateSection (heading_name (''## A '' @ [NL])))
   \<and> run init [''## A'' @ [NL], ''### 1'' @ [NL], ''Line'' @ [NL]] =
       Inr \<lparr>book = [(''A'', [(''1'', [])])], section = Some ''A'', chapter = Some ''1'',
            phrase = [''Line'']\<rparr>
   \<and> is_chapter_line (''###  1'' @ [NL])
   \<and> section_names [''## A'' @ [NL], ''### 1'' @ [NL], ''Line'' @ [NL]] \<noteq> []
   \<and> last (section_names [''## A'' @ [NL], ''### 1'' @ [NL], ''Line'' @ [NL]]) \<noteq> []
   \<and> heading_name (''###  1'' @ [NL])
       \<in> set (chapter_names [''## A'' @ [NL], ''### 1'' @ [NL], ''Line'' @ [NL]])
   \<and> parse_book ([''## A'' @ [NL], ''### 1'' @ [NL], ''Line'' @ [NL]] @ (''###  1'' @ [NL]) # [])
       = Inl (DuplicateChapter (heading_name (''###  1'' @ [NL])))
   \<and> distinct (section_names example_doc) \<and> chapters_distinct example_doc
   \<and> (\<exists>b. parse_book example_doc = Inr b)"
proof -
  let ?st1 = "\<lparr>book = [(''A'', [])], section = Some ''A'', chapter = None, phrase = []\<rparr>"
  let ?st2 = "\<lparr>book = [(''A'', [(''1'', [])])], section = Some ''A'', chapter = Some ''1'',
            phrase = [''Line'']\<rparr>"
  have a1: "run init [''## A'' @ [NL], ''Line'' @ [NL]] = Inr ?st1" by code_simp
  have a2: "is_section_line (''## A '' @ [NL])" by code_simp
  have a3: "heading_name (''## A '' @ [NL])
              \<in> set (section_names [''## A'' @ [NL], ''Line'' @ [NL]])" by code_simp
  have b1: "run init [''## A'' @ [NL], ''### 1'' @ [NL], ''Line'' @ [NL]] = Inr ?st2"
    by code_simp
  have b2: "is_chapter_line (''###  1'' @ [NL])" by code_simp
  have b3: "section_names [''## A'' @ [NL], ''### 1'' @ [NL], ''Line'' @ [NL]] \<noteq> []"
    by code_simp
  have b4: "last (section_names [''## A'' @ [NL], ''### 1'' @ [NL], ''Line'' @ [NL]]) \<noteq> []"
    by code_simp
  have b5: "heading_name (''###  1'' @ [NL])
              \<in> set (chapter_names [''## A'' @ [NL], ''### 1'' @ [NL], ''Line'' @ [NL]])"
    by code_simp
  have c1: "distinct (section_names example_doc)" by code_simp
  have c2: "chapters_distinct example_doc" by code_simp
  note t1 = duplicate_headings
              [where pre = "[''## A'' @ [NL], ''Line'' @ [NL]]" and st = ?st1
                 and line = "''## A '' @ [NL]" and post = "[''### 1'' @ [NL]]"]
  note t2 = duplicate_headings
              [where pre = "[''## A'' @ [NL], ''### 1'' @ [NL], ''Line'' @ [NL]]" and st = ?st2
                 and line = "''###  1'' @ [NL]" and post = "[]"]
  note t3 = duplicate_headings [where lines = example_doc]
  from t1 a1 a2 a3
  have r1: "parse_book ([''## A'' @ [NL], ''Line'' @ [NL]] @ (''## A '' @ [NL]) # [''### 1'' @ [NL]])
       = Inl (DuplicateSection (heading_name (''## A '' @ [NL])))"
    by blast
  from t2 b1 b2 b3 b4 b5
  have r2: "parse_book ([''## A'' @ [NL], ''### 1'' @ [NL], ''Line'' @ [NL]] @ (''###  1'' @ [NL]) # [])
       = Inl (DuplicateChapter (heading_name (''###  1'' @ [NL])))"
    by blast
  from t3 c1 c2 have r3: "\<exists>b. parse_book example_doc = Inr b"
    by blast
  from a1 a2 a3 b1 b2 b3 b4 b5 c1 c2 r1 r2 r3 show ?thesis
    by blast
qed

text \<open>
  Claim C3 as stated fails on a document that has both kinds of duplicate: the document
  has two level-1 headings named \<open>A\<close>, and the parser fails with the duplicate-chapter
  error of the earlier repeated level-2 heading, not with the duplicate-section error.
\<close>

theorem duplicate_headings_counterexample:
  "section_names both_duplicates_doc = [''A'', ''A'']
   \<and> parse_book both_duplicates_doc = Inl (DuplicateChapter ''1'')
   \<and> parse_book both_duplicates_doc \<noteq> Inl (DuplicateSection ''A'')"
  by code_simp

text \<open>
  A section whose name is empty is not covered by the statement above: the empty string is
  false in \<open>elif section and ...\<close>, so the level-2 headings that follow are ignored and a
  repeated one is not reported.
\<close>

lemma empty_section_name_ignores_chapters:
  "parse_book [''## '' @ [NL], ''### 1'' @ [NL], ''### 1'' @ [NL]] = Inr [([], [])]"
  by code_simp

end
